theory Spec2Isabelle
  imports Main
begin

section \<open>Variant records\<close>

text \<open>
  The VCF reader yields one record after the other. Of a record the program reads
  \<^verbatim>\<open>CHROM\<close>, \<^verbatim>\<open>start\<close> (0-based), \<^verbatim>\<open>is_snp\<close>, \<^verbatim>\<open>ALT\<close> and \<^verbatim>\<open>samples\<close>; of a
  sample's call it reads \<^verbatim>\<open>is_het\<close>, \<^verbatim>\<open>phased\<close> and the \<^verbatim>\<open>HP\<close> entry of \<^verbatim>\<open>call.data\<close>.
  \<^verbatim>\<open>hasattr(call.data, 'HP')\<close> is \<open>HP call \<noteq> None\<close>.
\<close>

record call =
  is_het :: bool
  phased :: bool
  HP :: "string list option"

record vcf_record =
  CHROM :: string
  start :: int
  is_snp :: bool
  ALT :: "string list"
  samples :: "call list"

section \<open>Exceptions\<close>

text \<open>Every \<^verbatim>\<open>assert\<close> of the source has a constructor of its own.\<close>

datatype assertion =
    Single_sample       \<comment> \<open>\<^verbatim>\<open>assert len(record.samples) == 1\<close>\<close>
  | Multiallelic_HP     \<comment> \<open>\<^verbatim>\<open>assert not (len(record.ALT) > 1 and hasattr(call.data, 'HP'))\<close>\<close>
  | Homozygous_HP       \<comment> \<open>\<^verbatim>\<open>"HP tag for homozygous variant found"\<close>\<close>
  | HP_pair             \<comment> \<open>\<^verbatim>\<open>assert len(call.data.HP) == 2\<close>\<close>
  | First_phased        \<comment> \<open>\<^verbatim>\<open>"First variant in VCF is phased. This shouldn't be."\<close>\<close>
  | Block_order         \<comment> \<open>\<^verbatim>\<open>assert prev_start > block_start\<close>\<close>
  | Gtf_interval        \<comment> \<open>\<^verbatim>\<open>assert start < stop\<close> of \<^verbatim>\<open>GtfWriter.write\<close>\<close>
  | Never_reached       \<comment> \<open>\<^verbatim>\<open>assert False\<close> of \<^verbatim>\<open>frequency_median\<close>\<close>

datatype error =
    AssertionError assertion
  | AttributeError      \<comment> \<open>an attribute of \<^verbatim>\<open>None\<close> is read\<close>
  | IndexError          \<comment> \<open>\<^verbatim>\<open>record.samples[0]\<close> on an empty list\<close>
  | KeyError            \<comment> \<open>a dictionary read at a key it does not have\<close>
  | NameError           \<comment> \<open>a name that no scope defines\<close>
  | UnboundLocalError   \<comment> \<open>a local variable read before its first assignment\<close>

section \<open>Output\<close>

text \<open>
  A line of the GTF file: the columns that vary. \<^verbatim>\<open>GtfWriter.write\<close> prints
  \<^verbatim>\<open>start + 1\<close> and \<^verbatim>\<open>stop\<close>; the source, feature, score, strand and frame columns are
  constants.
\<close>

record gtf_line =
  seqname :: string
  feature_start :: int
  feature_end :: int
  gene_id :: string
  transcript_id :: string

definition GtfWriter_write ::
  "gtf_line list \<Rightarrow> string \<Rightarrow> int \<Rightarrow> int \<Rightarrow> string \<Rightarrow> error + gtf_line list" where
  "GtfWriter_write file chromosome start0 stop name =
     (if start0 < stop
      then Inr (file @ [\<lparr>seqname = chromosome, feature_start = start0 + 1, feature_end = stop,
                         gene_id = name, transcript_id = name @ ''.1''\<rparr>])
      else Inl (AssertionError Gtf_interval))"

text \<open>The lines that \<^verbatim>\<open>printe\<close> writes to the error stream, by their label.\<close>

datatype stat_line =
    Variants_in_VCF int
  | Usable_variants int
  | Blocks_counter "((string \<times> string) \<times> int) list"
  | No_of_phased_blocks nat
  | Largest_block int
  | Median_block_size int
  | Smallest_block int
  | Considered_variants int
  | Blocks nat

section \<open>Counters\<close>

text \<open>
  A \<^verbatim>\<open>Counter\<close> is a dictionary in insertion order: \<^verbatim>\<open>c[k] += 1\<close> adds one to the
  entry of \<open>k\<close>, and appends the entry with value 1 when \<open>k\<close> is new.
\<close>

fun counter_incr :: "'k \<Rightarrow> ('k \<times> int) list \<Rightarrow> ('k \<times> int) list" where
  "counter_incr k [] = [(k, 1)]"
| "counter_incr k ((k', v) # kvs) =
     (if k = k' then (k', v + 1) # kvs else (k', v) # counter_incr k kvs)"

definition counter_get :: "('k \<times> int) list \<Rightarrow> 'k \<Rightarrow> int" where
  "counter_get c k = (case map_of c k of None \<Rightarrow> 0 | Some v \<Rightarrow> v)"

section \<open>Tag-based mode: \<^verbatim>\<open>parse_hp_tags\<close>\<close>

text \<open>
  The local variables of \<^verbatim>\<open>parse_hp_tags\<close>, the lines written so far, and the exception
  that ended the run, if any. \<^verbatim>\<open>block_start\<close> is unbound (\<open>None\<close>) until a block starts.
  \<^verbatim>\<open>prev_phased\<close> is assigned once and never read; it is left out.
\<close>

record hp_state =
  n_phased :: int
  n_records :: int
  blocks :: "((string \<times> string) \<times> int) list"
  prev_block_name :: "string option"
  prev_record :: "vcf_record option"
  hp_block_start :: "int option"
  gtf_file :: "gtf_line list"
  hp_stderr :: "stat_line list"
  hp_raised :: "error option"

definition hp_init :: hp_state where
  "hp_init = \<lparr>n_phased = 0, n_records = 0, blocks = [], prev_block_name = None,
              prev_record = None, hp_block_start = None, gtf_file = [], hp_stderr = [],
              hp_raised = None\<rparr>"

definition hp_raise :: "error \<Rightarrow> hp_state \<Rightarrow> hp_state" where
  "hp_raise e st = st\<lparr>hp_raised := Some e\<rparr>"

text \<open>
  \<^verbatim>\<open>prev_block_name != block_name or prev_record.CHROM != record.CHROM\<close>: the second
  operand is evaluated only when the first is false, and reads an attribute of
  \<^verbatim>\<open>prev_record\<close>.
\<close>

definition hp_is_transition :: "hp_state \<Rightarrow> string option \<Rightarrow> vcf_record \<Rightarrow> error + bool" where
  "hp_is_transition st block_name record =
     (if prev_block_name st \<noteq> block_name then Inr True
      else case prev_record st of
             None \<Rightarrow> Inl AttributeError
           | Some p \<Rightarrow> Inr (CHROM p \<noteq> CHROM record))"

text \<open>
  The body of \<^verbatim>\<open>if prev_block_name is not None:\<close>, which writes the block that has ended
  at the previous variant when a GTF writer is there.
\<close>

definition hp_block_ended :: "bool \<Rightarrow> hp_state \<Rightarrow> error + gtf_line list" where
  "hp_block_ended gtf st =
     (case prev_block_name st of
        None \<Rightarrow> Inr (gtf_file st)
      | Some name \<Rightarrow>
          if gtf then
            (case prev_record st of
               None \<Rightarrow> Inl AttributeError
             | Some p \<Rightarrow>
                 (case hp_block_start st of
                    None \<Rightarrow> Inl UnboundLocalError
                  | Some b \<Rightarrow> GtfWriter_write (gtf_file st) (CHROM p) b (start p + 1) name))
          else Inr (gtf_file st))"

text \<open>Lines 166 to 177: the transition check, and the update of the previous record.\<close>

definition hp_transition :: "bool \<Rightarrow> vcf_record \<Rightarrow> string option \<Rightarrow> hp_state \<Rightarrow> hp_state" where
  "hp_transition gtf record block_name st =
     (case hp_is_transition st block_name record of
        Inl e \<Rightarrow> hp_raise e st
      | Inr False \<Rightarrow> st\<lparr>prev_block_name := block_name, prev_record := Some record\<rparr>
      | Inr True \<Rightarrow>
          (case hp_block_ended gtf st of
             Inl e \<Rightarrow> hp_raise e st
           | Inr file \<Rightarrow>
               st\<lparr>gtf_file := file,
                  hp_block_start := (case block_name of
                                       None \<Rightarrow> hp_block_start st
                                     | Some _ \<Rightarrow> Some (start record)),
                  prev_block_name := block_name,
                  prev_record := Some record\<rparr>))"

text \<open>\<^verbatim>\<open>call.data.HP[0].split('-')[0]\<close>: the tag up to its first hyphen.\<close>

definition block_name_of :: "string \<Rightarrow> string" where
  "block_name_of tag = takeWhile (\<lambda>c. c \<noteq> CHR ''-'') tag"

text \<open>One iteration of the loop over the records (lines 147 to 177).\<close>

definition hp_step :: "bool \<Rightarrow> hp_state \<Rightarrow> vcf_record \<Rightarrow> hp_state" where
  "hp_step gtf st0 record =
     (if hp_raised st0 \<noteq> None then st0
      else
        let st = st0\<lparr>n_records := n_records st0 + 1\<rparr> in
        case samples record of
          [call] \<Rightarrow>
            if length (ALT record) > 1 \<and> HP call \<noteq> None
            then hp_raise (AssertionError Multiallelic_HP) st
            else if \<not> is_het call \<and> HP call \<noteq> None
            then hp_raise (AssertionError Homozygous_HP) st
            else
              (case HP call of
                 None \<Rightarrow> hp_transition gtf record None st
               | Some hp \<Rightarrow>
                   (case hp of
                      [h0, h1] \<Rightarrow>
                        let block_name = block_name_of h0 in
                        hp_transition gtf record (Some block_name)
                          (st\<lparr>blocks := counter_incr (CHROM record, block_name) (blocks st),
                              n_phased := n_phased st + 1\<rparr>)
                    | _ \<Rightarrow> hp_raise (AssertionError HP_pair) st))
        | _ \<Rightarrow> hp_raise (AssertionError Single_sample) st)"

definition hp_loop :: "bool \<Rightarrow> vcf_record list \<Rightarrow> hp_state" where
  "hp_loop gtf records = foldl (hp_step gtf) hp_init records"

text \<open>
  The statistics (lines 184 to 192). The median that is printed is
  \<^verbatim>\<open>sorted(blocks.values())[len(blocks) // 2]\<close>.
\<close>

definition reported_median :: "int list \<Rightarrow> int" where
  "reported_median sizes = sort sizes ! (length sizes div 2)"

definition hp_statistics :: "hp_state \<Rightarrow> stat_line list" where
  "hp_statistics st =
     [Variants_in_VCF (n_records st),
      Usable_variants (n_phased st),
      Blocks_counter (blocks st),
      No_of_phased_blocks (length (blocks st))]
     @ (if blocks st \<noteq> []
        then [Largest_block (Max (set (map snd (blocks st)))),
              Median_block_size (reported_median (map snd (blocks st))),
              Smallest_block (Min (set (map snd (blocks st))))]
        else [])"

text \<open>\<^verbatim>\<open>gtf\<close> says whether a \<^verbatim>\<open>gtfpath\<close> was given.\<close>

definition parse_hp_tags :: "bool \<Rightarrow> vcf_record list \<Rightarrow> hp_state" where
  "parse_hp_tags gtf records =
     (let st = hp_loop gtf records in
      if hp_raised st \<noteq> None then st
      else st\<lparr>hp_stderr := hp_statistics st\<rparr>)"

text \<open>Whether the first sample of a record has an \<^verbatim>\<open>HP\<close> entry.\<close>

definition carries_HP :: "vcf_record \<Rightarrow> bool" where
  "carries_HP record = (case samples record of [] \<Rightarrow> False | call # _ \<Rightarrow> HP call \<noteq> None)"

section \<open>Adjacency mode: \<^verbatim>\<open>parse_pipe_notation\<close>\<close>

text \<open>A line printed to the standard output when a block ends.\<close>

record pipe_block =
  pb_chrom :: string
  pb_start :: int
  pb_end :: int
  pb_len :: int
  pb_n :: int

text \<open>
  The local variables of \<^verbatim>\<open>parse_pipe_notation\<close> (\<^verbatim>\<open>n\<close> is \<open>pipe_n\<close>), the warnings
  logged, the lines printed and the exception that ended the run, if any.
  \<^verbatim>\<open>block_start\<close> is \<^verbatim>\<open>None\<close> outside a block; \<^verbatim>\<open>prev_start\<close> and \<^verbatim>\<open>n_variants\<close> are unbound
  (\<open>None\<close>) until their first assignment.
\<close>

record pipe_state =
  pipe_n :: int
  block_start :: "int option"
  singletons :: int
  block_lengths :: "int list"
  prev_start :: "int option"
  n_variants :: "int option"
  warnings :: nat
  stdout :: "pipe_block list"
  pipe_stderr :: "stat_line list"
  pipe_raised :: "error option"

definition pipe_init :: pipe_state where
  "pipe_init = \<lparr>pipe_n = 0, block_start = None, singletons = 0, block_lengths = [],
                prev_start = None, n_variants = None, warnings = 0, stdout = [],
                pipe_stderr = [], pipe_raised = None\<rparr>"

definition pipe_raise :: "error \<Rightarrow> pipe_state \<Rightarrow> pipe_state" where
  "pipe_raise e st = st\<lparr>pipe_raised := Some e\<rparr>"

text \<open>
  The end of a block that started at \<open>b\<close> (lines 106 to 109, and again 117 to 120):
  the assertion, the printed line and the new entry of \<^verbatim>\<open>block_lengths\<close>. \<open>chrom\<close> is
  \<^verbatim>\<open>record.CHROM\<close>.
\<close>

definition pipe_end_of_block :: "string \<Rightarrow> int \<Rightarrow> pipe_state \<Rightarrow> pipe_state" where
  "pipe_end_of_block chrom b st =
     (case prev_start st of
        None \<Rightarrow> pipe_raise UnboundLocalError st
      | Some p \<Rightarrow>
          if p > b then
            (let block_length = p - b + 1 in
             case n_variants st of
               None \<Rightarrow> pipe_raise UnboundLocalError st
             | Some nv \<Rightarrow>
                 st\<lparr>stdout := stdout st @ [\<lparr>pb_chrom = chrom, pb_start = b, pb_end = p + 1,
                                             pb_len = block_length, pb_n = nv\<rparr>],
                    block_lengths := block_lengths st @ [block_length]\<rparr>)
          else pipe_raise (AssertionError Block_order) st)"

text \<open>The branch \<^verbatim>\<open>if call.phased:\<close> (lines 94 to 102).\<close>

definition pipe_phased :: "pipe_state \<Rightarrow> pipe_state" where
  "pipe_phased st =
     (if pipe_n st > 0 then
        (case block_start st of
           None \<Rightarrow>
             (case prev_start st of
                None \<Rightarrow> pipe_raise UnboundLocalError st
              | Some p \<Rightarrow> st\<lparr>block_start := Some p, n_variants := Some 2\<rparr>)
         | Some b \<Rightarrow>
             (case n_variants st of
                None \<Rightarrow> pipe_raise UnboundLocalError st
              | Some nv \<Rightarrow> st\<lparr>n_variants := Some (nv + 1)\<rparr>))
      else pipe_raise (AssertionError First_phased) st)"

text \<open>The branch \<^verbatim>\<open>else:\<close> (lines 104 to 112).\<close>

definition pipe_unphased :: "string \<Rightarrow> pipe_state \<Rightarrow> pipe_state" where
  "pipe_unphased chrom st =
     (case block_start st of
        Some b \<Rightarrow>
          (let st' = pipe_end_of_block chrom b st in
           if pipe_raised st' \<noteq> None then st' else st'\<lparr>block_start := None\<rparr>)
      | None \<Rightarrow> st\<lparr>singletons := singletons st + 1\<rparr>)"

text \<open>One iteration of the loop over the records (lines 70 to 115).\<close>

definition pipe_step :: "pipe_state \<Rightarrow> vcf_record \<Rightarrow> pipe_state" where
  "pipe_step st record =
     (if pipe_raised st \<noteq> None then st
      else if \<not> is_snp record then st
      else if length (ALT record) > 1 then st\<lparr>warnings := warnings st + 1\<rparr>
      else
        (case samples record of
           [] \<Rightarrow> pipe_raise IndexError st
         | call # others \<Rightarrow>
             if others \<noteq> [] then pipe_raise (AssertionError Single_sample) st
             else if \<not> is_het call then st
             else
               (let st' = (if phased call then pipe_phased st
                           else pipe_unphased (CHROM record) st)
                in if pipe_raised st' \<noteq> None then st'
                   else st'\<lparr>prev_start := Some (start record), pipe_n := pipe_n st' + 1\<rparr>)))"

definition pipe_loop :: "vcf_record list \<Rightarrow> pipe_state" where
  "pipe_loop records = foldl pipe_step pipe_init records"

text \<open>
  After the loop (lines 116 to 120) \<^verbatim>\<open>record\<close> is the last record that the reader
  yielded, whether it was skipped or not; it is unbound when there was none.
\<close>

definition pipe_flush :: "vcf_record list \<Rightarrow> pipe_state \<Rightarrow> pipe_state" where
  "pipe_flush records st =
     (case block_start st of
        None \<Rightarrow> st
      | Some b \<Rightarrow>
          (case prev_start st of
             None \<Rightarrow> pipe_raise UnboundLocalError st
           | Some p \<Rightarrow>
               if p > b then
                 (if records = [] then pipe_raise UnboundLocalError st
                  else pipe_end_of_block (CHROM (last records)) b st)
               else pipe_raise (AssertionError Block_order) st))"

text \<open>
  The statistics (lines 127 to 133): two lines are printed, then \<^verbatim>\<open>if blocks:\<close> reads
  the name \<^verbatim>\<open>blocks\<close>, which neither the function nor the module defines, so that the
  lines under it are never printed.
\<close>

definition pipe_statistics :: "pipe_state \<Rightarrow> pipe_state" where
  "pipe_statistics st =
     pipe_raise NameError
       (st\<lparr>pipe_stderr := [Considered_variants (pipe_n st),
                            Blocks (length (block_lengths st))]\<rparr>)"

definition parse_pipe_notation :: "vcf_record list \<Rightarrow> pipe_state" where
  "parse_pipe_notation records =
     (let st = pipe_loop records in
      if pipe_raised st \<noteq> None then st
      else
        let st' = pipe_flush records st in
        if pipe_raised st' \<noteq> None then st' else pipe_statistics st')"

section \<open>\<^verbatim>\<open>frequency_median\<close>\<close>

text \<open>
  \<^verbatim>\<open>frequencies\<close> is a dictionary from a length to the number of its occurrences. No
  path of the program calls the function.
\<close>

fun frequency_median_walk :: "(int \<times> int) list \<Rightarrow> int \<Rightarrow> int \<Rightarrow> int list \<Rightarrow> error + int" where
  "frequency_median_walk frequencies middle m [] = Inl (AssertionError Never_reached)"
| "frequency_median_walk frequencies middle m (l # ls) =
     (case map_of frequencies l of
        None \<Rightarrow> Inl KeyError
      | Some f \<Rightarrow>
          if m + f \<ge> middle then Inr l
          else frequency_median_walk frequencies middle (m + f) ls)"

definition frequency_median :: "(int \<times> int) list \<Rightarrow> error + int" where
  "frequency_median frequencies =
     frequency_median_walk frequencies ((1 + sum_list (map snd frequencies)) div 2) 0
       (sort (map fst frequencies))"

text \<open>\<^verbatim>\<open>Counter(xs)\<close>: the occurrences of every element of a list.\<close>

definition Counter :: "'k list \<Rightarrow> ('k \<times> int) list" where
  "Counter xs = foldl (\<lambda>c k. counter_incr k c) [] xs"

section \<open>The median as the specification words it\<close>

text \<open>
  Written from the specification, to be compared with \<open>reported_median\<close>: the sizes in
  ascending order, \<open>middle = ceil((1 + total) / 2)\<close> with \<open>total\<close> the sum of the sizes,
  and a running sum of size times number of occurrences; the first size at which the sum
  reaches \<open>middle\<close>.
\<close>

fun spec_median_walk :: "int list \<Rightarrow> int \<Rightarrow> int \<Rightarrow> int list \<Rightarrow> int option" where
  "spec_median_walk sizes middle running [] = None"
| "spec_median_walk sizes middle running (s # ss) =
     (let running' = running + s * int (count_list sizes s) in
      if running' \<ge> middle then Some s else spec_median_walk sizes middle running' ss)"

definition spec_median :: "int list \<Rightarrow> int option" where
  "spec_median sizes =
     spec_median_walk sizes ((1 + sum_list sizes + 1) div 2) 0 (remdups (sort sizes))"

section \<open>Classes of records and of streams\<close>

text \<open>
  A record that the adjacency mode considers: a SNP with at most one alternate allele,
  one sample, heterozygous. A record that it skips: no SNP, or several alternate alleles,
  or one sample that is not heterozygous.
\<close>

definition considered :: "vcf_record \<Rightarrow> bool" where
  "considered record =
     (is_snp record \<and> length (ALT record) \<le> 1 \<and>
      (case samples record of [call] \<Rightarrow> is_het call | _ \<Rightarrow> False))"

definition skipped :: "vcf_record \<Rightarrow> bool" where
  "skipped record =
     (\<not> is_snp record \<or> length (ALT record) > 1 \<or>
      (case samples record of [call] \<Rightarrow> \<not> is_het call | _ \<Rightarrow> False))"

definition first_call_phased :: "vcf_record \<Rightarrow> bool" where
  "first_call_phased record = (case samples record of [] \<Rightarrow> False | call # _ \<Rightarrow> phased call)"

text \<open>The first record that is not skipped is considered and marked as phased.\<close>

definition first_considered_phased :: "vcf_record list \<Rightarrow> bool" where
  "first_considered_phased records =
     (case dropWhile skipped records of
        [] \<Rightarrow> False
      | record # _ \<Rightarrow> considered record \<and> first_call_phased record)"

text \<open>
  The considered records that are not phased and come right after a phased considered
  record: they close a block. \<open>inside\<close> says whether the considered record before was
  phased.
\<close>

fun closing_unphased :: "bool \<Rightarrow> vcf_record list \<Rightarrow> nat" where
  "closing_unphased inside [] = 0"
| "closing_unphased inside (record # records) =
     (if considered record then
        (if first_call_phased record then closing_unphased True records
         else (if inside then 1 else 0) + closing_unphased False records)
      else closing_unphased inside records)"

section \<open>Sample streams\<close>

definition het_snp :: "string \<Rightarrow> int \<Rightarrow> bool \<Rightarrow> vcf_record" where
  "het_snp chrom pos ph =
     \<lparr>CHROM = chrom, start = pos, is_snp = True, ALT = [''A''],
      samples = [\<lparr>is_het = True, phased = ph, HP = None\<rparr>]\<rparr>"

definition tagged_snp :: "string \<Rightarrow> int \<Rightarrow> string \<Rightarrow> vcf_record" where
  "tagged_snp chrom pos tag =
     \<lparr>CHROM = chrom, start = pos, is_snp = True, ALT = [''A''],
      samples = [\<lparr>is_het = True, phased = False, HP = Some [tag @ ''-1'', tag @ ''-2'']\<rparr>]\<rparr>"

definition indel :: "string \<Rightarrow> int \<Rightarrow> vcf_record" where
  "indel chrom pos =
     \<lparr>CHROM = chrom, start = pos, is_snp = False, ALT = [''AT''],
      samples = [\<lparr>is_het = True, phased = False, HP = None\<rparr>]\<rparr>"

text \<open>
  A record whose first sample has an \<^verbatim>\<open>HP\<close> entry although the record has several
  alternate alleles or the call is not heterozygous, and the assertion of the tag-based
  mode that such a record fails.
\<close>

definition tag_violates :: "vcf_record \<Rightarrow> bool" where
  "tag_violates record =
     (case samples record of
        [] \<Rightarrow> False
      | call # _ \<Rightarrow> HP call \<noteq> None \<and> (length (ALT record) > 1 \<or> \<not> is_het call))"

definition violated_assertion :: "vcf_record \<Rightarrow> assertion" where
  "violated_assertion record =
     (if length (samples record) \<noteq> 1 then Single_sample
      else if length (ALT record) > 1 then Multiallelic_HP
      else Homozygous_HP)"

definition multiallelic_tagged :: vcf_record where
  "multiallelic_tagged =
     \<lparr>CHROM = ''chr1'', start = 9, is_snp = True, ALT = [''A'', ''C''],
      samples = [\<lparr>is_het = True, phased = False, HP = Some [''42-1'', ''42-2'']\<rparr>]\<rparr>"

text \<open>\<open>k\<close> records of one phase group, at the positions \<open>first\<close>, \<open>first + 1\<close>, ...\<close>

definition group_run :: "string \<Rightarrow> string \<Rightarrow> nat \<Rightarrow> nat \<Rightarrow> vcf_record list" where
  "group_run chrom tag first k = map (\<lambda>i. tagged_snp chrom (int i) tag) [first..<first + k]"

definition stream_3_3_5 :: "vcf_record list" where
  "stream_3_3_5 = group_run ''chr1'' ''7'' 0 3 @ group_run ''chr1'' ''8'' 3 3 @ group_run ''chr1'' ''9'' 6 5"

definition stream_2_2_5 :: "vcf_record list" where
  "stream_2_2_5 = group_run ''chr1'' ''7'' 0 2 @ group_run ''chr1'' ''8'' 2 2 @ group_run ''chr1'' ''9'' 4 5"

section \<open>Auxiliary notions for the proofs\<close>

text \<open>
  What \<open>pipe_step\<close> does with a considered record: one of the two branches, then the
  update of \<^verbatim>\<open>prev_start\<close> and \<^verbatim>\<open>n\<close>.
\<close>

definition pipe_body :: "vcf_record \<Rightarrow> pipe_state \<Rightarrow> pipe_state" where
  "pipe_body r st =
     (let st' = (if first_call_phased r then pipe_phased st else pipe_unphased (CHROM r) st)
      in if pipe_raised st' \<noteq> None then st'
         else st'\<lparr>prev_start := Some (start r), pipe_n := pipe_n st' + 1\<rparr>)"

text \<open>
  Once a variant has been considered, or an exception raised, the assertion on the first
  variant cannot fail any more.
\<close>

definition past_first :: "pipe_state \<Rightarrow> bool" where
  "past_first st =
     (pipe_raised st \<noteq> Some (AssertionError First_phased)
      \<and> (pipe_raised st = None \<longrightarrow> pipe_n st > 0))"

text \<open>A record with two samples.\<close>

definition two_sample_snp :: vcf_record where
  "two_sample_snp =
     \<lparr>CHROM = ''chr1'', start = 9, is_snp = True, ALT = [''A''],
      samples = [\<lparr>is_het = True, phased = False, HP = Some [''42-1'', ''42-2'']\<rparr>,
                 \<lparr>is_het = True, phased = False, HP = Some [''42-1'', ''42-2'']\<rparr>]\<rparr>"

text \<open>
  The balance of the adjacency mode: the variants counted in printed blocks, those of the
  open block but its first, and the singletons, less the variants considered and the
  blocks printed.
\<close>

definition account :: "pipe_state \<Rightarrow> int" where
  "account st =
     sum_list (map pb_n (stdout st))
     + (case block_start st of
          None \<Rightarrow> 0
        | Some b \<Rightarrow> (case n_variants st of None \<Rightarrow> 0 | Some nv \<Rightarrow> nv - 1))
     + singletons st - pipe_n st - int (length (stdout st))"

text \<open>Two blocks, one singleton, one unphased variant that closes a block, one indel.\<close>

definition example_stream :: "vcf_record list" where
  "example_stream =
     [het_snp ''chr1'' 3 False, het_snp ''chr1'' 5 True, het_snp ''chr1'' 7 False,
      het_snp ''chr1'' 9 True, het_snp ''chr1'' 11 True, indel ''chr1'' 13]"

definition unphased_then_phased :: "vcf_record list" where
  "unphased_then_phased = [het_snp ''chr1'' 3 False, het_snp ''chr1'' 5 True]"

text \<open>
  What holds of the lines written so far, in the two modes. In the tag-based mode the
  variant count of a written block is the entry of its chromosome and name in
  \<^verbatim>\<open>blocks\<close>.
\<close>

definition line_ok :: "((string \<times> string) \<times> int) list \<Rightarrow> gtf_line \<Rightarrow> bool" where
  "line_ok counts l =
     (feature_start l - 1 < feature_end l \<and> 1 \<le> counter_get counts (seqname l, gene_id l))"

definition gtf_ok :: "hp_state \<Rightarrow> bool" where
  "gtf_ok st =
     ((\<forall>l \<in> set (gtf_file st). line_ok (blocks st) l)
      \<and> (\<forall>k. 0 \<le> counter_get (blocks st) k)
      \<and> (\<forall>name p. prev_block_name st = Some name \<longrightarrow> prev_record st = Some p \<longrightarrow>
             1 \<le> counter_get (blocks st) (CHROM p, name)))"

definition pipe_ok :: "pipe_state \<Rightarrow> bool" where
  "pipe_ok st =
     ((\<forall>b \<in> set (stdout st). pb_start b < pb_end b \<and> 2 \<le> pb_n b)
      \<and> (\<forall>nv. n_variants st = Some nv \<longrightarrow> 2 \<le> nv))"

text \<open>Two phase groups of one variant each.\<close>

definition two_groups :: "vcf_record list" where
  "two_groups = [tagged_snp ''chr1'' 5 ''41'', tagged_snp ''chr1'' 9 ''42'']"

section \<open>The loop after an exception\<close>

lemma hp_step_raised: "hp_raised st \<noteq> None \<Longrightarrow> hp_step gtf st r = st"
  by (simp add: hp_step_def)

lemma hp_foldl_raised: "hp_raised st \<noteq> None \<Longrightarrow> foldl (hp_step gtf) st rs = st"
  by (induction rs) (simp_all add: hp_step_raised)

lemma hp_loop_snoc: "hp_loop gtf (rs @ [r]) = hp_step gtf (hp_loop gtf rs) r"
  by (simp add: hp_loop_def)

lemma hp_loop_Cons: "hp_loop gtf (r # rs) = foldl (hp_step gtf) (hp_step gtf hp_init r) rs"
  by (simp add: hp_loop_def)

section \<open>C2: a first record without a tag\<close>

lemma hp_step_first_no_HP:
  assumes "\<not> carries_HP r"
  shows "hp_step gtf hp_init r =
           hp_init\<lparr>n_records := 1,
                    hp_raised := Some (if length (samples r) = 1 then AttributeError
                                       else AssertionError Single_sample)\<rparr>"
proof (cases "samples r")
  case Nil
  then show ?thesis by (simp add: hp_step_def hp_init_def hp_raise_def)
next
  case (Cons c cs)
  with assms have hp: "HP c = None" by (simp add: carries_HP_def)
  show ?thesis
  proof (cases cs)
    case Nil
    with Cons hp show ?thesis
      by (simp add: hp_step_def hp_init_def hp_raise_def hp_transition_def hp_is_transition_def)
  next
    case (Cons d ds)
    with \<open>samples r = c # cs\<close> show ?thesis
      by (simp add: hp_step_def hp_init_def hp_raise_def)
  qed
qed

text \<open>
  C2. In the tag-based mode, a stream whose first record carries no \<^verbatim>\<open>HP\<close> tag fails at
  that record, whatever follows: with one sample, the transition check reads
  \<^verbatim>\<open>prev_record.CHROM\<close> while \<^verbatim>\<open>prev_record\<close> is \<^verbatim>\<open>None\<close> (an \<^verbatim>\<open>AttributeError\<close>); with
  another number of samples the assertion on the samples fails before that. Nothing has
  been written to the GTF file, no block has been counted or started, and no statistics
  are printed.
\<close>

theorem first_record_without_HP_fails:
  assumes "\<not> carries_HP r"
  shows "hp_raised (parse_hp_tags gtf (r # rs)) =
           Some (if length (samples r) = 1 then AttributeError
                 else AssertionError Single_sample)
       \<and> gtf_file (parse_hp_tags gtf (r # rs)) = []
       \<and> hp_stderr (parse_hp_tags gtf (r # rs)) = []
       \<and> blocks (parse_hp_tags gtf (r # rs)) = []
       \<and> hp_block_start (parse_hp_tags gtf (r # rs)) = None"
proof -
  let ?st = "hp_step gtf hp_init r"
  have raised: "hp_raised ?st \<noteq> None"
    by (simp add: hp_step_first_no_HP [OF assms])
  have "hp_loop gtf (r # rs) = ?st"
    unfolding hp_loop_Cons by (rule hp_foldl_raised [OF raised])
  then have "parse_hp_tags gtf (r # rs) = ?st"
    using raised by (simp add: parse_hp_tags_def)
  then show ?thesis
    unfolding hp_step_first_no_HP [OF assms] by (simp add: hp_init_def)
qed

theorem first_record_without_HP_fails_witness:
  "\<not> carries_HP (het_snp ''chr1'' 3 False)
   \<and> hp_raised (parse_hp_tags True [het_snp ''chr1'' 3 False, tagged_snp ''chr1'' 5 ''42''])
       = Some AttributeError
   \<and> hp_stderr (parse_hp_tags True [het_snp ''chr1'' 3 False, tagged_snp ''chr1'' 5 ''42''])
       = []"
  using first_record_without_HP_fails
          [of "het_snp ''chr1'' 3 False" True "[tagged_snp ''chr1'' 5 ''42'']"]
  by (simp add: carries_HP_def het_snp_def)

section \<open>C9: a tag on a multi-allelic or homozygous record\<close>

lemma hp_step_tag_violates:
  assumes "hp_raised st = None" and "tag_violates r"
  shows "hp_step gtf st r =
           st\<lparr>n_records := n_records st + 1,
              hp_raised := Some (AssertionError (violated_assertion r))\<rparr>"
proof (cases "samples r")
  case Nil
  with assms show ?thesis by (simp add: tag_violates_def)
next
  case (Cons c cs)
  with assms(2) have v: "HP c \<noteq> None" "length (ALT r) > 1 \<or> \<not> is_het c"
    by (simp_all add: tag_violates_def)
  show ?thesis
  proof (cases cs)
    case Nil
    with Cons v assms(1) show ?thesis
      by (auto simp add: hp_step_def hp_raise_def violated_assertion_def)
  next
    case (Cons d ds)
    with \<open>samples r = c # cs\<close> assms(1) show ?thesis
      by (simp add: hp_step_def hp_raise_def violated_assertion_def)
  qed
qed

text \<open>
  C9. In the tag-based mode, a record that carries an \<^verbatim>\<open>HP\<close> tag and has more than one
  alternate allele, or whose call is not heterozygous, makes the run fail. When the
  records before it raised nothing, the run ends at this record with an
  \<^verbatim>\<open>AssertionError\<close>, and all that has changed is the count of records read: the tag
  entered neither the counter of blocks nor the count of phased variants, no block was
  started and nothing was written.
\<close>

theorem tagged_multiallelic_or_homozygous_fails:
  assumes "tag_violates r"
  shows "hp_raised (parse_hp_tags gtf (pre @ r # post)) \<noteq> None
       \<and> (hp_raised (hp_loop gtf pre) = None \<longrightarrow>
            parse_hp_tags gtf (pre @ r # post) =
              (hp_loop gtf pre)\<lparr>n_records := n_records (hp_loop gtf pre) + 1,
                 hp_raised := Some (AssertionError (violated_assertion r))\<rparr>)"
proof -
  let ?st = "hp_loop gtf pre"
  have loop: "hp_loop gtf (pre @ r # post) = foldl (hp_step gtf) (hp_step gtf ?st r) post"
    by (simp add: hp_loop_def)
  show ?thesis
  proof (cases "hp_raised ?st = None")
    case True
    let ?st' = "?st\<lparr>n_records := n_records ?st + 1,
                     hp_raised := Some (AssertionError (violated_assertion r))\<rparr>"
    have step: "hp_step gtf ?st r = ?st'"
      by (rule hp_step_tag_violates [OF True assms])
    have "hp_raised ?st' \<noteq> None" by simp
    then have "foldl (hp_step gtf) ?st' post = ?st'" by (rule hp_foldl_raised)
    with loop step have eq: "hp_loop gtf (pre @ r # post) = ?st'" by simp
    then have "parse_hp_tags gtf (pre @ r # post) = ?st'"
      by (simp add: parse_hp_tags_def)
    then show ?thesis by simp
  next
    case False
    then have "foldl (hp_step gtf) ?st (r # post) = ?st" by (rule hp_foldl_raised)
    then have "hp_loop gtf (pre @ r # post) = ?st" by (simp add: hp_loop_def)
    with False have "hp_raised (parse_hp_tags gtf (pre @ r # post)) \<noteq> None"
      by (simp add: parse_hp_tags_def)
    with False show ?thesis by blast
  qed
qed

theorem tagged_multiallelic_or_homozygous_fails_witness:
  "tag_violates multiallelic_tagged
   \<and> parse_hp_tags True [tagged_snp ''chr1'' 5 ''42'', multiallelic_tagged] =
       (hp_loop True [tagged_snp ''chr1'' 5 ''42''])
         \<lparr>n_records := 2, hp_raised := Some (AssertionError Multiallelic_HP)\<rparr>"
proof -
  have v: "tag_violates multiallelic_tagged"
    by (simp add: tag_violates_def multiallelic_tagged_def)
  have ok: "hp_raised (hp_loop True [tagged_snp ''chr1'' 5 ''42'']) = None"
    by code_simp
  have n: "n_records (hp_loop True [tagged_snp ''chr1'' 5 ''42'']) = 1"
    by code_simp
  have a: "violated_assertion multiallelic_tagged = Multiallelic_HP"
    by (simp add: violated_assertion_def multiallelic_tagged_def)
  from tagged_multiallelic_or_homozygous_fails [OF v, of True "[tagged_snp ''chr1'' 5 ''42'']" "[]"]
  show ?thesis using v ok n a by simp
qed

section \<open>The body of the tag-mode loop, by cases\<close>

lemma hp_transition_prev_record:
  "hp_raised (hp_transition gtf r bn st) = None \<Longrightarrow>
   prev_record (hp_transition gtf r bn st) = Some r"
  by (simp add: hp_transition_def hp_raise_def split: sum.splits bool.splits)

lemma hp_step_cases:
  assumes "hp_raised st = None"
  obtains (raised) a where "hp_step gtf st r = hp_raise (AssertionError a) (st\<lparr>n_records := n_records st + 1\<rparr>)"
  | (untagged) c where "samples r = [c]" "HP c = None"
      "hp_step gtf st r = hp_transition gtf r None (st\<lparr>n_records := n_records st + 1\<rparr>)"
  | (tagged) c h0 h1 where "samples r = [c]" "HP c = Some [h0, h1]" "is_het c" "length (ALT r) \<le> 1"
      "hp_step gtf st r = hp_transition gtf r (Some (block_name_of h0))
         (st\<lparr>n_records := n_records st + 1,
            blocks := counter_incr (CHROM r, block_name_of h0) (blocks st),
            n_phased := n_phased st + 1\<rparr>)"
proof (cases "samples r")
  case Nil
  with assms have "hp_step gtf st r = hp_raise (AssertionError Single_sample) (st\<lparr>n_records := n_records st + 1\<rparr>)"
    by (simp add: hp_step_def)
  then show ?thesis by (rule raised)
next
  case (Cons c cs)
  show ?thesis
  proof (cases cs)
    case (Cons d ds)
    with \<open>samples r = c # cs\<close> assms
    have "hp_step gtf st r = hp_raise (AssertionError Single_sample) (st\<lparr>n_records := n_records st + 1\<rparr>)"
      by (simp add: hp_step_def)
    then show ?thesis by (rule raised)
  next
    case Nil
    with Cons have s: "samples r = [c]" by simp
    show ?thesis
    proof (cases "HP c")
      case None
      with s assms show ?thesis by (intro untagged [of c]) (simp_all add: hp_step_def)
    next
      case (Some hp)
      consider (multi) "length (ALT r) > 1" | (hom) "length (ALT r) \<le> 1" "\<not> is_het c"
        | (pair) h0 h1 where "length (ALT r) \<le> 1" "is_het c" "hp = [h0, h1]"
        | (nopair) "length (ALT r) \<le> 1" "is_het c" "length hp \<noteq> 2"
      proof (cases "length hp = 2")
        case True
        then obtain h0 h1 where "hp = [h0, h1]"
          by (cases hp; cases "tl hp"; cases "tl (tl hp)") auto
        with that show ?thesis by (cases "length (ALT r) > 1"; cases "is_het c") auto
      next
        case False
        with that show ?thesis by (cases "length (ALT r) > 1"; cases "is_het c") auto
      qed
      then show ?thesis
      proof cases
        case multi
        with s Some assms show ?thesis by (intro raised [of Multiallelic_HP]) (simp add: hp_step_def)
      next
        case hom
        with s Some assms show ?thesis by (intro raised [of Homozygous_HP]) (simp add: hp_step_def)
      next
        case pair
        with s Some assms show ?thesis
          by (intro tagged [of c h0 h1]) (simp_all add: hp_step_def Let_def)
      next
        case nopair
        with s Some assms show ?thesis
          by (intro raised [of HP_pair]) (auto simp add: hp_step_def Let_def split: list.splits)
      qed
    qed
  qed
qed

lemma hp_step_prev_record:
  assumes "hp_raised st = None" and "hp_raised (hp_step gtf st r) = None"
  shows "prev_record (hp_step gtf st r) = Some r"
  using assms(1)
proof (cases rule: hp_step_cases [where gtf = gtf and r = r])
  case (raised a)
  with assms(2) show ?thesis by (simp add: hp_raise_def)
next
  case (untagged c)
  with assms(2) show ?thesis by (simp add: hp_transition_prev_record)
next
  case (tagged c h0 h1)
  with assms(2) show ?thesis by (simp add: hp_transition_prev_record)
qed

lemma hp_loop_last_record:
  assumes "hp_raised (hp_loop gtf (pre @ [p])) = None"
  shows "prev_record (hp_loop gtf (pre @ [p])) = Some p"
proof -
  have "hp_raised (hp_loop gtf pre) = None"
  proof (rule ccontr)
    assume "hp_raised (hp_loop gtf pre) \<noteq> None"
    then have "hp_step gtf (hp_loop gtf pre) p = hp_loop gtf pre" by (rule hp_step_raised)
    with assms \<open>hp_raised (hp_loop gtf pre) \<noteq> None\<close> show False by (simp add: hp_loop_snoc)
  qed
  then show ?thesis using assms unfolding hp_loop_snoc by (rule hp_step_prev_record)
qed

section \<open>C8: a change of chromosome inside a phase group\<close>

text \<open>
  C8. In the tag-based mode, let the records up to \<open>p\<close> have been read without an
  exception, with a block open (its name \<open>name\<close>, its start \<open>b\<close>), and let the next
  record \<open>r\<close> carry a tag and lie on another chromosome than \<open>p\<close>. Then a transition
  occurs whatever the name that the tag of \<open>r\<close> gives, the same name included: the block
  is closed on the chromosome of \<open>p\<close> with end \<open>start p + 1\<close> (written when a GTF writer
  is there, which asserts \<open>b < start p + 1\<close>), and a new block starts at the position
  of \<open>r\<close>.
\<close>

theorem chromosome_change_closes_block:
  assumes st: "hp_loop gtf (pre @ [p]) = st"
    and ok: "hp_raised st = None"
    and inside: "prev_block_name st = Some name" "hp_block_start st = Some b"
    and r: "samples r = [c]" "HP c = Some [h0, h1]" "is_het c" "length (ALT r) \<le> 1"
    and chrom: "CHROM r \<noteq> CHROM p"
  shows "hp_loop gtf (pre @ [p, r]) =
           (let counted = st\<lparr>n_records := n_records st + 1,
                              blocks := counter_incr (CHROM r, block_name_of h0) (blocks st),
                              n_phased := n_phased st + 1\<rparr>
            in if gtf \<and> \<not> b < start p + 1 then hp_raise (AssertionError Gtf_interval) counted
               else counted\<lparr>gtf_file :=
                              (if gtf
                               then gtf_file st @
                                      [\<lparr>seqname = CHROM p, feature_start = b + 1,
                                        feature_end = start p + 1, gene_id = name,
                                        transcript_id = name @ ''.1''\<rparr>]
                               else gtf_file st),
                            hp_block_start := Some (start r),
                            prev_block_name := Some (block_name_of h0),
                            prev_record := Some r\<rparr>)"
proof -
  have prev: "prev_record st = Some p"
    using hp_loop_last_record [of gtf pre p] st ok by simp
  have "hp_loop gtf (pre @ [p, r]) = hp_step gtf st r"
    using hp_loop_snoc [of gtf "pre @ [p]" r] st by simp
  also have "\<dots> =
           (let counted = st\<lparr>n_records := n_records st + 1,
                              blocks := counter_incr (CHROM r, block_name_of h0) (blocks st),
                              n_phased := n_phased st + 1\<rparr>
            in hp_transition gtf r (Some (block_name_of h0)) counted)"
    using ok r by (simp add: hp_step_def Let_def)
  finally show ?thesis
    using prev inside chrom
    by (simp add: Let_def hp_transition_def hp_is_transition_def hp_block_ended_def
          GtfWriter_write_def hp_raise_def)
qed

theorem chromosome_change_closes_block_witness:
  "hp_loop True ([] @ [tagged_snp ''chr1'' 5 ''100'', tagged_snp ''chr2'' 9 ''100'']) =
     \<lparr>n_phased = 2, n_records = 2,
      blocks = [((''chr1'', ''100''), 1), ((''chr2'', ''100''), 1)],
      prev_block_name = Some ''100'',
      prev_record = Some (tagged_snp ''chr2'' 9 ''100''),
      hp_block_start = Some 9,
      gtf_file = [\<lparr>seqname = ''chr1'', feature_start = 6, feature_end = 6,
                   gene_id = ''100'', transcript_id = ''100.1''\<rparr>],
      hp_stderr = [], hp_raised = None\<rparr>"
proof -
  let ?p = "tagged_snp ''chr1'' 5 ''100''"
  let ?r = "tagged_snp ''chr2'' 9 ''100''"
  let ?st = "\<lparr>n_phased = 1, n_records = 1, blocks = [((''chr1'', ''100''), 1)],
             prev_block_name = Some ''100'', prev_record = Some ?p,
             hp_block_start = Some 5, gtf_file = [], hp_stderr = [], hp_raised = None\<rparr>"
  have st: "hp_loop True ([] @ [?p]) = ?st"
    by code_simp
  have r: "samples ?r = [\<lparr>is_het = True, phased = False, HP = Some [''100-1'', ''100-2'']\<rparr>]"
    by (simp add: tagged_snp_def)
  have chrom: "CHROM ?r \<noteq> CHROM ?p" by (simp add: tagged_snp_def)
  have alt: "length (ALT ?r) \<le> 1" by (simp add: tagged_snp_def)
  have name: "block_name_of ''100-1'' = ''100''" by (simp add: block_name_of_def)
  from chromosome_change_closes_block [OF st _ _ _ r _ _ alt chrom, of "''100''" 5 "''100-1''" "''100-2''"]
  show ?thesis
    using name by (simp add: tagged_snp_def Let_def)
qed

section \<open>C4: the median that is printed\<close>

lemma sorted_nth_below:
  assumes "sorted xs" and "i < length xs"
  shows "length (filter (\<lambda>x. x < xs ! i) xs) \<le> i"
proof -
  have "filter (\<lambda>x. x < xs ! i) (drop i xs) = []"
  proof -
    have "\<forall>x \<in> set (drop i xs). \<not> x < xs ! i"
    proof
      fix x assume "x \<in> set (drop i xs)"
      then obtain j where "j < length (drop i xs)" "x = drop i xs ! j"
        by (auto simp add: in_set_conv_nth)
      then have "x = xs ! (i + j)" and "i + j < length xs" by simp_all
      with assms(1) have "xs ! i \<le> x" by (simp add: sorted_nth_mono)
      then show "\<not> x < xs ! i" by simp
    qed
    then show ?thesis by (simp add: filter_empty_conv)
  qed
  then have "filter (\<lambda>x. x < xs ! i) xs = filter (\<lambda>x. x < xs ! i) (take i xs)"
    by (metis append_take_drop_id filter_append append_Nil2)
  then have "length (filter (\<lambda>x. x < xs ! i) xs) \<le> length (take i xs)"
    by (simp del: length_take)
  with assms(2) show ?thesis by simp
qed

lemma sorted_nth_upto:
  assumes "sorted xs" and "i < length xs"
  shows "i < length (filter (\<lambda>x. x \<le> xs ! i) xs)"
proof -
  have "\<forall>x \<in> set (take (Suc i) xs). x \<le> xs ! i"
  proof
    fix x assume "x \<in> set (take (Suc i) xs)"
    then obtain j where "j < length (take (Suc i) xs)" "x = take (Suc i) xs ! j"
      by (auto simp add: in_set_conv_nth)
    then have "x = xs ! j" and "j \<le> i" by simp_all
    with assms show "x \<le> xs ! i" by (simp add: sorted_nth_mono)
  qed
  then have "filter (\<lambda>x. x \<le> xs ! i) (take (Suc i) xs) = take (Suc i) xs"
    by (simp add: filter_id_conv)
  moreover have "filter (\<lambda>x. x \<le> xs ! i) xs =
      filter (\<lambda>x. x \<le> xs ! i) (take (Suc i) xs) @ filter (\<lambda>x. x \<le> xs ! i) (drop (Suc i) xs)"
    by (metis append_take_drop_id filter_append)
  ultimately have "length (filter (\<lambda>x. x \<le> xs ! i) xs) \<ge> length (take (Suc i) xs)"
    by simp
  with assms(2) show ?thesis by simp
qed

lemma length_filter_sort: "length (filter P (sort xs)) = length (filter P xs)"
  by (simp add: filter_sort)

lemma reported_median_middle:
  fixes sizes :: "int list"
  assumes "sizes \<noteq> []"
  shows "reported_median sizes \<in> set sizes"
    and "length (filter (\<lambda>s. s < reported_median sizes) sizes) \<le> length sizes div 2"
    and "length sizes div 2 < length (filter (\<lambda>s. s \<le> reported_median sizes) sizes)"
proof -
  let ?i = "length sizes div 2"
  from assms have i: "?i < length (sort sizes)" by simp
  have s: "sorted (sort sizes)" by simp
  from i have "sort sizes ! ?i \<in> set (sort sizes)" by (rule nth_mem)
  then show "reported_median sizes \<in> set sizes" by (simp add: reported_median_def)
  from sorted_nth_below [OF s i]
  show "length (filter (\<lambda>s. s < reported_median sizes) sizes) \<le> ?i"
    by (simp add: reported_median_def length_filter_sort)
  from sorted_nth_upto [OF s i]
  show "?i < length (filter (\<lambda>s. s \<le> reported_median sizes) sizes)"
    by (simp add: reported_median_def length_filter_sort)
qed


lemma parse_hp_tags_ok:
  assumes "hp_raised (parse_hp_tags gtf rs) = None"
  shows "parse_hp_tags gtf rs = (hp_loop gtf rs)\<lparr>hp_stderr := hp_statistics (hp_loop gtf rs)\<rparr>"
  using assms by (simp add: parse_hp_tags_def Let_def split: if_splits)

text \<open>
  C4, as amended. When the tag-based mode ends without an exception and has counted at
  least one block, the line \<^verbatim>\<open>Median block size\<close> carries the element at index
  \<open>k div 2\<close> of the block sizes in ascending order, \<open>k\<close> the number of blocks: a size
  \<open>m\<close> that occurs, with at most \<open>k div 2\<close> sizes below it and more than \<open>k div 2\<close>
  sizes up to it, hence the upper of the two middle values when \<open>k\<close> is even. Neither
  the sum of the sizes nor \<^verbatim>\<open>frequency_median\<close> takes part. For the sizes 3, 3, 5 it
  is 3.
\<close>

theorem reported_median_is_upper_middle:
  assumes "hp_raised (parse_hp_tags gtf rs) = None"
    and "blocks (parse_hp_tags gtf rs) \<noteq> []"
  shows "let sizes = map snd (blocks (parse_hp_tags gtf rs));
             m = sort sizes ! (length sizes div 2)
         in Median_block_size m \<in> set (hp_stderr (parse_hp_tags gtf rs))
            \<and> m \<in> set sizes
            \<and> length (filter (\<lambda>s. s < m) sizes) \<le> length sizes div 2
            \<and> length sizes div 2 < length (filter (\<lambda>s. s \<le> m) sizes)"
proof -
  let ?st = "hp_loop gtf rs"
  let ?sizes = "map snd (blocks ?st)"
  have run: "parse_hp_tags gtf rs = ?st\<lparr>hp_stderr := hp_statistics ?st\<rparr>"
    by (rule parse_hp_tags_ok [OF assms(1)])
  with assms(2) have ne: "blocks ?st \<noteq> []" by simp
  then have sizes: "?sizes \<noteq> []" by simp
  have line: "Median_block_size (reported_median ?sizes) \<in> set (hp_statistics ?st)"
    using ne by (simp add: hp_statistics_def)
  have m: "reported_median ?sizes = sort ?sizes ! (length ?sizes div 2)"
    by (simp add: reported_median_def)
  from reported_median_middle [OF sizes] line
  show ?thesis unfolding run m Let_def by simp
qed

theorem reported_median_is_upper_middle_witness:
  "map snd (blocks (parse_hp_tags False stream_3_3_5)) = [3, 3, 5]
   \<and> Median_block_size 3 \<in> set (hp_stderr (parse_hp_tags False stream_3_3_5))"
proof -
  have ok: "hp_raised (parse_hp_tags False stream_3_3_5) = None"
    by code_simp
  have sizes: "map snd (blocks (parse_hp_tags False stream_3_3_5)) = [3, 3, 5]"
    by code_simp
  then have ne: "blocks (parse_hp_tags False stream_3_3_5) \<noteq> []" by auto
  have m: "sort [3, 3, 5 :: int] ! (length [3, 3, 5 :: int] div 2) = 3" by code_simp
  from reported_median_is_upper_middle [OF ok ne] sizes m
  show ?thesis by (simp add: Let_def)
qed

text \<open>
  C4 as the claim words it fails: for blocks of the sizes 2, 2, 5 the specification's walk
  (\<open>middle = 5\<close>, running sums 4 and 9) gives 5, the program prints 2, and
  \<^verbatim>\<open>frequency_median\<close> gives 2 as well.
\<close>

theorem spec_median_counterexample:
  "map snd (blocks (parse_hp_tags False stream_2_2_5)) = [2, 2, 5]
   \<and> hp_raised (parse_hp_tags False stream_2_2_5) = None
   \<and> hp_stderr (parse_hp_tags False stream_2_2_5) ! 5 = Median_block_size 2
   \<and> Median_block_size 5 \<notin> set (hp_stderr (parse_hp_tags False stream_2_2_5))
   \<and> spec_median [2, 2, 5] = Some 5
   \<and> frequency_median (Counter [2, 2, 5]) = Inr 2"
  by code_simp

section \<open>C1: the block that is open at the end of the stream\<close>

text \<open>
  C1. The tag-based mode has no statement after its loop that writes the open block
  (the adjacency mode has, lines 116 to 120). A stream of two records of the group 42
  ends with the block open and an empty GTF file, while the statistics count one block;
  of the groups 41 and 42 only the block of 41 is written.
\<close>

theorem last_block_not_written:
  "parse_hp_tags True [tagged_snp ''chr1'' 5 ''42'', tagged_snp ''chr1'' 9 ''42''] =
     \<lparr>n_phased = 2, n_records = 2, blocks = [((''chr1'', ''42''), 2)],
      prev_block_name = Some ''42'',
      prev_record = Some (tagged_snp ''chr1'' 9 ''42''),
      hp_block_start = Some 5, gtf_file = [],
      hp_stderr = [Variants_in_VCF 2, Usable_variants 2,
                   Blocks_counter [((''chr1'', ''42''), 2)], No_of_phased_blocks 1,
                   Largest_block 2, Median_block_size 2, Smallest_block 2],
      hp_raised = None\<rparr>
   \<and> gtf_file (parse_hp_tags True [tagged_snp ''chr1'' 3 ''41'', tagged_snp ''chr1'' 5 ''42'',
         tagged_snp ''chr1'' 9 ''42'']) =
       [\<lparr>seqname = ''chr1'', feature_start = 4, feature_end = 4, gene_id = ''41'',
         transcript_id = ''41.1''\<rparr>]"
  by code_simp

section \<open>C3: the statistics when there is no block\<close>

lemma parse_pipe_notation_raises: "pipe_raised (parse_pipe_notation rs) \<noteq> None"
  by (simp add: parse_pipe_notation_def Let_def pipe_statistics_def pipe_raise_def)

text \<open>
  C3. In the adjacency mode the statistics raise a \<^verbatim>\<open>NameError\<close> after their second
  line, for the empty stream and for a stream of one unphased variant, which have no
  block (and, by the lemma above, for every stream that reaches them). In the tag-based
  mode the statistics of the empty stream are the four lines that do not depend on the
  sizes of blocks.
\<close>

theorem pipe_statistics_of_no_block_raise:
  "parse_pipe_notation [] =
     pipe_init\<lparr>pipe_stderr := [Considered_variants 0, Blocks 0],
               pipe_raised := Some NameError\<rparr>
   \<and> parse_pipe_notation [het_snp ''chr1'' 3 False] =
     pipe_init\<lparr>pipe_n := 1, singletons := 1, prev_start := Some 3,
               pipe_stderr := [Considered_variants 1, Blocks 0],
               pipe_raised := Some NameError\<rparr>
   \<and> parse_hp_tags False [] =
     hp_init\<lparr>hp_stderr := [Variants_in_VCF 0, Usable_variants 0, Blocks_counter [],
                           No_of_phased_blocks 0]\<rparr>"
  by code_simp

section \<open>The body of the adjacency-mode loop, by cases\<close>

lemma pipe_step_raised: "pipe_raised st \<noteq> None \<Longrightarrow> pipe_step st r = st"
  by (simp add: pipe_step_def)

lemma pipe_foldl_raised: "pipe_raised st \<noteq> None \<Longrightarrow> foldl pipe_step st rs = st"
  by (induction rs) (simp_all add: pipe_step_raised)

lemma pipe_step_cases:
  assumes "pipe_raised st = None"
  obtains (skip) "skipped r" "pipe_step st r = st"
  | (warn) "skipped r" "pipe_step st r = st\<lparr>warnings := warnings st + 1\<rparr>"
  | (faulty) e where "\<not> skipped r" "\<not> considered r" "pipe_step st r = pipe_raise e st"
      "e = IndexError \<or> e = AssertionError Single_sample"
  | (body) "considered r" "\<not> skipped r" "pipe_step st r = pipe_body r st"
proof (cases "is_snp r")
  case False
  with assms show ?thesis by (intro skip) (simp_all add: skipped_def pipe_step_def)
next
  case snp: True
  show ?thesis
  proof (cases "length (ALT r) > 1")
    case True
    with assms snp show ?thesis by (intro warn) (simp_all add: skipped_def pipe_step_def)
  next
    case alt: False
    show ?thesis
    proof (cases "samples r")
      case Nil
      with assms snp alt show ?thesis
        by (intro faulty [of IndexError])
           (simp_all add: skipped_def considered_def pipe_step_def)
    next
      case (Cons c cs)
      show ?thesis
      proof (cases cs)
        case (Cons d ds)
        with \<open>samples r = c # cs\<close> assms snp alt show ?thesis
          by (intro faulty [of "AssertionError Single_sample"])
             (simp_all add: skipped_def considered_def pipe_step_def)
      next
        case Nil
        with Cons have s: "samples r = [c]" by simp
        show ?thesis
        proof (cases "is_het c")
          case False
          with s assms snp alt show ?thesis
            by (intro skip) (simp_all add: skipped_def pipe_step_def)
        next
          case True
          with s assms snp alt show ?thesis
            by (intro body)
               (simp_all add: skipped_def considered_def pipe_step_def pipe_body_def
                  first_call_phased_def)
        qed
      qed
    qed
  qed
qed

section \<open>C10: the assertion on the first variant\<close>

lemma pipe_phased_first:
  "pipe_n st \<le> 0 \<Longrightarrow> pipe_phased st = pipe_raise (AssertionError First_phased) st"
  by (simp add: pipe_phased_def)

lemma pipe_phased_later:
  "pipe_n st > 0 \<Longrightarrow> pipe_raised st \<noteq> Some (AssertionError First_phased) \<Longrightarrow>
   pipe_raised (pipe_phased st) \<noteq> Some (AssertionError First_phased)
   \<and> pipe_n (pipe_phased st) = pipe_n st"
  by (simp add: pipe_phased_def pipe_raise_def split: option.splits)

lemma pipe_end_of_block_not_first:
  "pipe_raised st \<noteq> Some (AssertionError First_phased) \<Longrightarrow>
   pipe_raised (pipe_end_of_block chrom b st) \<noteq> Some (AssertionError First_phased)
   \<and> pipe_n (pipe_end_of_block chrom b st) = pipe_n st"
  by (simp add: pipe_end_of_block_def pipe_raise_def Let_def split: option.splits)

lemma pipe_unphased_not_first:
  "pipe_raised st \<noteq> Some (AssertionError First_phased) \<Longrightarrow>
   pipe_raised (pipe_unphased chrom st) \<noteq> Some (AssertionError First_phased)
   \<and> pipe_n (pipe_unphased chrom st) = pipe_n st"
  by (simp add: pipe_unphased_def Let_def pipe_end_of_block_not_first split: option.splits)

lemma pipe_body_past_first:
  assumes "past_first st" "pipe_raised st = None"
  shows "past_first (pipe_body r st)"
proof (cases "first_call_phased r")
  case True
  from assms have "pipe_n st > 0" "pipe_raised st \<noteq> Some (AssertionError First_phased)"
    by (simp_all add: past_first_def)
  from pipe_phased_later [OF this] True show ?thesis
    using \<open>pipe_n st > 0\<close> by (simp add: pipe_body_def past_first_def Let_def)
next
  case False
  from assms have "pipe_n st > 0" "pipe_raised st \<noteq> Some (AssertionError First_phased)"
    by (simp_all add: past_first_def)
  from pipe_unphased_not_first [OF this(2)] False show ?thesis
    using \<open>pipe_n st > 0\<close> by (simp add: pipe_body_def past_first_def Let_def)
qed

lemma pipe_step_past_first:
  assumes "past_first st"
  shows "past_first (pipe_step st r)"
proof (cases "pipe_raised st = None")
  case False
  with assms show ?thesis by (simp add: pipe_step_raised)
next
  case True
  then show ?thesis
  proof (cases rule: pipe_step_cases [where r = r])
    case skip
    with assms show ?thesis by simp
  next
    case warn
    with assms show ?thesis by (simp add: past_first_def)
  next
    case (faulty e)
    then show ?thesis by (auto simp add: past_first_def pipe_raise_def)
  next
    case body
    with assms True show ?thesis by (simp add: pipe_body_past_first)
  qed
qed

lemma pipe_foldl_past_first: "past_first st \<Longrightarrow> past_first (foldl pipe_step st rs)"
  by (induction rs arbitrary: st) (simp_all add: pipe_step_past_first)

lemma pipe_body_unphased_first:
  assumes "pipe_raised st = None" "\<not> first_call_phased r" "pipe_n st = 0"
  shows "past_first (pipe_body r st)"
proof -
  from assms(1) have "pipe_raised st \<noteq> Some (AssertionError First_phased)" by simp
  from pipe_unphased_not_first [OF this, of "CHROM r"] assms(2,3) show ?thesis
    by (simp add: pipe_body_def past_first_def Let_def)
qed

lemma pipe_foldl_first_phased:
  assumes "pipe_raised st = None" "pipe_n st = 0"
  shows "pipe_raised (foldl pipe_step st rs) = Some (AssertionError First_phased)
         \<longleftrightarrow> first_considered_phased rs"
  using assms
proof (induction rs arbitrary: st)
  case Nil
  then show ?case by (simp add: first_considered_phased_def)
next
  case (Cons r rs)
  from Cons.prems(1) show ?case
  proof (cases rule: pipe_step_cases [where r = r])
    case skip
    with Cons show ?thesis by (simp add: first_considered_phased_def)
  next
    case warn
    with Cons.IH [of "st\<lparr>warnings := warnings st + 1\<rparr>"] Cons.prems
    show ?thesis by (simp add: first_considered_phased_def)
  next
    case (faulty e)
    then have "pipe_raised (pipe_step st r) \<noteq> None" by (simp add: pipe_raise_def)
    then have "foldl pipe_step (pipe_step st r) rs = pipe_step st r"
      by (rule pipe_foldl_raised)
    with faulty show ?thesis
      by (auto simp add: first_considered_phased_def pipe_raise_def)
  next
    case body
    show ?thesis
    proof (cases "first_call_phased r")
      case True
      with body Cons.prems have step: "pipe_step st r = pipe_raise (AssertionError First_phased) st"
        by (simp add: pipe_body_def pipe_phased_first pipe_raise_def)
      then have "pipe_raised (pipe_step st r) \<noteq> None" by (simp add: pipe_raise_def)
      then have "foldl pipe_step (pipe_step st r) rs = pipe_step st r"
        by (rule pipe_foldl_raised)
      with step body True show ?thesis
        by (simp add: first_considered_phased_def pipe_raise_def)
    next
      case False
      with body Cons.prems have "past_first (pipe_step st r)"
        by (simp add: pipe_body_unphased_first)
      then have "past_first (foldl pipe_step (pipe_step st r) rs)"
        by (rule pipe_foldl_past_first)
      with body False show ?thesis
        by (simp add: first_considered_phased_def past_first_def)
    qed
  qed
qed


lemma pipe_flush_not_first:
  "pipe_raised st = None \<Longrightarrow>
   pipe_raised (pipe_flush rs st) \<noteq> Some (AssertionError First_phased)"
  by (simp add: pipe_flush_def pipe_raise_def pipe_end_of_block_not_first split: option.splits)

lemma parse_pipe_notation_first_phased:
  "pipe_raised (parse_pipe_notation rs) = Some (AssertionError First_phased)
   \<longleftrightarrow> pipe_raised (pipe_loop rs) = Some (AssertionError First_phased)"
proof (cases "pipe_raised (pipe_loop rs) = None")
  case True
  with pipe_flush_not_first [OF True, of rs] show ?thesis
    by (simp add: parse_pipe_notation_def Let_def pipe_statistics_def pipe_raise_def)
next
  case False
  then show ?thesis by (simp add: parse_pipe_notation_def)
qed

text \<open>
  C10, as amended. In the adjacency mode the run fails with the assertion "First variant
  in VCF is phased" exactly when the first record of the stream that is not skipped is a
  considered record (a SNP with at most one alternate allele, one sample, heterozygous)
  marked as phased. Skipped records before it do not count as variants: a phased record
  that follows only skipped records fails the assertion as the very first record does.
\<close>

theorem first_phased_assertion_iff:
  "pipe_raised (parse_pipe_notation rs) = Some (AssertionError First_phased)
   \<longleftrightarrow> first_considered_phased rs"
proof -
  have "pipe_raised (foldl pipe_step pipe_init rs) = Some (AssertionError First_phased)
        \<longleftrightarrow> first_considered_phased rs"
    by (rule pipe_foldl_first_phased) (simp_all add: pipe_init_def)
  then show ?thesis
    by (simp add: parse_pipe_notation_first_phased pipe_loop_def)
qed

theorem first_phased_assertion_iff_witness:
  "first_considered_phased [het_snp ''chr1'' 3 True]
   \<and> pipe_raised (parse_pipe_notation [het_snp ''chr1'' 3 True])
       = Some (AssertionError First_phased)
   \<and> \<not> first_considered_phased [het_snp ''chr1'' 3 False, het_snp ''chr1'' 5 True]
   \<and> pipe_raised (parse_pipe_notation [het_snp ''chr1'' 3 False, het_snp ''chr1'' 5 True])
       \<noteq> Some (AssertionError First_phased)"
  using first_phased_assertion_iff [of "[het_snp ''chr1'' 3 True]"]
    first_phased_assertion_iff [of "[het_snp ''chr1'' 3 False, het_snp ''chr1'' 5 True]"]
  by (simp add: first_considered_phased_def skipped_def considered_def first_call_phased_def
        het_snp_def)

text \<open>
  C10 as the claim words it fails: after an indel, which is skipped, a phased
  heterozygous SNP raises the assertion although it is the second record of the stream.
\<close>

theorem phased_after_skipped_counterexample:
  "skipped (indel ''chr1'' 1)
   \<and> pipe_raised (parse_pipe_notation [indel ''chr1'' 1, het_snp ''chr1'' 5 True])
       = Some (AssertionError First_phased)"
  by code_simp

section \<open>C7: records with several samples\<close>

lemma hp_transition_stderr: "hp_stderr (hp_transition gtf r bn st) = hp_stderr st"
  by (simp add: hp_transition_def hp_raise_def split: sum.splits bool.splits)

lemma hp_step_stderr: "hp_stderr (hp_step gtf st r) = hp_stderr st"
proof (cases "hp_raised st = None")
  case False
  then show ?thesis by (simp add: hp_step_raised)
next
  case True
  then show ?thesis
    by (cases rule: hp_step_cases [where gtf = gtf and r = r])
       (simp_all add: hp_raise_def hp_transition_stderr)
qed

lemma hp_foldl_stderr: "hp_stderr (foldl (hp_step gtf) st rs) = hp_stderr st"
  by (induction rs arbitrary: st) (simp_all add: hp_step_stderr)

lemma hp_loop_stderr: "hp_stderr (hp_loop gtf rs) = []"
  by (simp add: hp_loop_def hp_foldl_stderr hp_init_def)

lemma hp_step_several_samples:
  assumes "hp_raised st = None" and "length (samples r) \<noteq> 1"
  shows "hp_step gtf st r =
           hp_raise (AssertionError Single_sample) (st\<lparr>n_records := n_records st + 1\<rparr>)"
  using assms by (cases "samples r"; cases "tl (samples r)") (auto simp add: hp_step_def)

lemma pipe_end_of_block_stderr: "pipe_stderr (pipe_end_of_block chrom b st) = pipe_stderr st"
  by (simp add: pipe_end_of_block_def pipe_raise_def Let_def split: option.splits)

lemma pipe_body_stderr: "pipe_stderr (pipe_body r st) = pipe_stderr st"
  by (simp add: pipe_body_def pipe_phased_def pipe_unphased_def pipe_raise_def Let_def
        pipe_end_of_block_stderr split: option.splits)

lemma pipe_step_stderr: "pipe_stderr (pipe_step st r) = pipe_stderr st"
proof (cases "pipe_raised st = None")
  case False
  then show ?thesis by (simp add: pipe_step_raised)
next
  case True
  then show ?thesis
    by (cases rule: pipe_step_cases [where r = r])
       (simp_all add: pipe_raise_def pipe_body_stderr)
qed

lemma pipe_foldl_stderr: "pipe_stderr (foldl pipe_step st rs) = pipe_stderr st"
  by (induction rs arbitrary: st) (simp_all add: pipe_step_stderr)

lemma pipe_loop_stderr: "pipe_stderr (pipe_loop rs) = []"
  by (simp add: pipe_loop_def pipe_foldl_stderr pipe_init_def)

lemma pipe_step_several_samples:
  assumes "pipe_raised st = None" and "is_snp r" "length (ALT r) \<le> 1"
    and "length (samples r) > 1"
  shows "pipe_step st r = pipe_raise (AssertionError Single_sample) st"
  using assms by (cases "samples r"; cases "tl (samples r)") (auto simp add: pipe_step_def)

lemma hp_abort:
  assumes "hp_raised (hp_loop gtf rs) \<noteq> None"
  shows "parse_hp_tags gtf rs = hp_loop gtf rs" and "hp_stderr (parse_hp_tags gtf rs) = []"
  using assms by (simp_all add: parse_hp_tags_def hp_loop_stderr)

lemma pipe_abort:
  assumes "pipe_raised (pipe_loop rs) \<noteq> None"
  shows "parse_pipe_notation rs = pipe_loop rs" and "pipe_stderr (parse_pipe_notation rs) = []"
  using assms by (simp_all add: parse_pipe_notation_def pipe_loop_stderr)

lemma hp_loop_raising_step:
  assumes "hp_raised (hp_loop gtf pre) = None \<Longrightarrow> hp_raised (hp_step gtf (hp_loop gtf pre) r) = Some e"
  shows "hp_raised (hp_loop gtf (pre @ r # post)) \<noteq> None"
    and "hp_raised (hp_loop gtf pre) = None \<Longrightarrow> hp_raised (hp_loop gtf (pre @ r # post)) = Some e"
proof -
  let ?st = "hp_step gtf (hp_loop gtf pre) r"
  have loop: "hp_loop gtf (pre @ r # post) = foldl (hp_step gtf) ?st post"
    by (simp add: hp_loop_def)
  have raised: "hp_raised ?st \<noteq> None"
    using assms by (cases "hp_raised (hp_loop gtf pre) = None") (simp_all add: hp_step_raised)
  then have "foldl (hp_step gtf) ?st post = ?st" by (rule hp_foldl_raised)
  with loop have eq: "hp_loop gtf (pre @ r # post) = ?st" by simp
  with raised show "hp_raised (hp_loop gtf (pre @ r # post)) \<noteq> None" by simp
  from eq assms show "hp_raised (hp_loop gtf pre) = None \<Longrightarrow>
    hp_raised (hp_loop gtf (pre @ r # post)) = Some e" by simp
qed

lemma pipe_loop_raising_step:
  assumes "pipe_raised (pipe_loop pre) = None \<Longrightarrow> pipe_raised (pipe_step (pipe_loop pre) r) = Some e"
  shows "pipe_raised (pipe_loop (pre @ r # post)) \<noteq> None"
    and "pipe_raised (pipe_loop pre) = None \<Longrightarrow> pipe_raised (pipe_loop (pre @ r # post)) = Some e"
proof -
  let ?st = "pipe_step (pipe_loop pre) r"
  have loop: "pipe_loop (pre @ r # post) = foldl pipe_step ?st post"
    by (simp add: pipe_loop_def)
  have raised: "pipe_raised ?st \<noteq> None"
    using assms by (cases "pipe_raised (pipe_loop pre) = None") (simp_all add: pipe_step_raised)
  then have "foldl pipe_step ?st post = ?st" by (rule pipe_foldl_raised)
  with loop have eq: "pipe_loop (pre @ r # post) = ?st" by simp
  with raised show "pipe_raised (pipe_loop (pre @ r # post)) \<noteq> None" by simp
  from eq assms show "pipe_raised (pipe_loop pre) = None \<Longrightarrow>
    pipe_raised (pipe_loop (pre @ r # post)) = Some e" by simp
qed

text \<open>
  C7, as amended. A record with more than one sample makes the run fail, in the tag-based
  mode always and in the adjacency mode when the record is a SNP with at most one
  alternate allele: the loop raises an exception at this record or before it, and no
  statistics are printed. When the records before it raised nothing, the exception is the
  \<^verbatim>\<open>AssertionError\<close> of \<^verbatim>\<open>assert len(record.samples) == 1\<close>. Only of a record with
  exactly one sample is the first call read.
\<close>

theorem several_samples_abort:
  assumes "length (samples r) > 1"
  shows "hp_raised (parse_hp_tags gtf (pre @ r # post)) \<noteq> None
       \<and> hp_stderr (parse_hp_tags gtf (pre @ r # post)) = []
       \<and> (hp_raised (hp_loop gtf pre) = None \<longrightarrow>
            hp_raised (parse_hp_tags gtf (pre @ r # post)) = Some (AssertionError Single_sample))
       \<and> (is_snp r \<and> length (ALT r) \<le> 1 \<longrightarrow>
            pipe_raised (pipe_loop (pre @ r # post)) \<noteq> None
          \<and> pipe_stderr (parse_pipe_notation (pre @ r # post)) = []
          \<and> (pipe_raised (pipe_loop pre) = None \<longrightarrow>
               pipe_raised (parse_pipe_notation (pre @ r # post))
                 = Some (AssertionError Single_sample)))"
proof -
  have hp_step: "hp_raised (hp_step gtf (hp_loop gtf pre) r) = Some (AssertionError Single_sample)"
    if "hp_raised (hp_loop gtf pre) = None"
    using hp_step_several_samples [OF that, of r gtf] assms by (simp add: hp_raise_def)
  note hp = hp_loop_raising_step [of gtf pre r "AssertionError Single_sample" post, OF hp_step]
  have tag: "hp_raised (parse_hp_tags gtf (pre @ r # post)) \<noteq> None
       \<and> hp_stderr (parse_hp_tags gtf (pre @ r # post)) = []
       \<and> (hp_raised (hp_loop gtf pre) = None \<longrightarrow>
            hp_raised (parse_hp_tags gtf (pre @ r # post)) = Some (AssertionError Single_sample))"
    using hp hp_abort [OF hp(1)] by simp
  have pipe: "pipe_raised (pipe_loop (pre @ r # post)) \<noteq> None
          \<and> pipe_stderr (parse_pipe_notation (pre @ r # post)) = []
          \<and> (pipe_raised (pipe_loop pre) = None \<longrightarrow>
               pipe_raised (parse_pipe_notation (pre @ r # post))
                 = Some (AssertionError Single_sample))"
    if snp: "is_snp r" "length (ALT r) \<le> 1"
  proof -
    have step: "pipe_raised (pipe_step (pipe_loop pre) r) = Some (AssertionError Single_sample)"
      if "pipe_raised (pipe_loop pre) = None"
      using pipe_step_several_samples [OF that snp assms] by (simp add: pipe_raise_def)
    note p = pipe_loop_raising_step [of pre r "AssertionError Single_sample" post, OF step]
    show ?thesis using p pipe_abort [OF p(1)] by simp
  qed
  from tag pipe show ?thesis by blast
qed

theorem several_samples_abort_witness:
  "length (samples two_sample_snp) > 1
   \<and> hp_raised (parse_hp_tags True [tagged_snp ''chr1'' 5 ''42'', two_sample_snp])
       = Some (AssertionError Single_sample)
   \<and> hp_stderr (parse_hp_tags True [tagged_snp ''chr1'' 5 ''42'', two_sample_snp]) = []
   \<and> pipe_raised (parse_pipe_notation [tagged_snp ''chr1'' 5 ''42'', two_sample_snp])
       = Some (AssertionError Single_sample)
   \<and> pipe_stderr (parse_pipe_notation [tagged_snp ''chr1'' 5 ''42'', two_sample_snp]) = []"
proof -
  have s: "length (samples two_sample_snp) > 1" by (simp add: two_sample_snp_def)
  have snp: "is_snp two_sample_snp \<and> length (ALT two_sample_snp) \<le> 1"
    by (simp add: two_sample_snp_def)
  have hp: "hp_raised (hp_loop True [tagged_snp ''chr1'' 5 ''42'']) = None" by code_simp
  have pipe: "pipe_raised (pipe_loop [tagged_snp ''chr1'' 5 ''42'']) = None" by code_simp
  from several_samples_abort [OF s, of True "[tagged_snp ''chr1'' 5 ''42'']" "[]"]
  show ?thesis using s snp hp pipe by simp
qed

text \<open>
  C7 as the claim words it fails: a stream of one record with two samples aborts in both
  modes, without a block and without statistics.
\<close>

theorem first_sample_only_counterexample:
  "length (samples two_sample_snp) = 2
   \<and> hp_raised (parse_hp_tags False [two_sample_snp]) = Some (AssertionError Single_sample)
   \<and> hp_stderr (parse_hp_tags False [two_sample_snp]) = []
   \<and> blocks (parse_hp_tags False [two_sample_snp]) = []
   \<and> pipe_raised (parse_pipe_notation [two_sample_snp]) = Some (AssertionError Single_sample)
   \<and> pipe_stderr (parse_pipe_notation [two_sample_snp]) = []"
  by code_simp

section \<open>C6: the balance of the adjacency mode\<close>

lemma pipe_body_phased_account:
  assumes "first_call_phased r" and "pipe_raised (pipe_body r st) = None"
  shows "block_start (pipe_body r st) \<noteq> None"
    and "account (pipe_body r st) = account st"
    and "pipe_n (pipe_body r st) = pipe_n st + 1"
  using assms
  by (auto simp add: pipe_body_def pipe_phased_def pipe_raise_def account_def Let_def
        split: option.splits if_splits)

lemma pipe_body_unphased_account:
  assumes "\<not> first_call_phased r" and "pipe_raised (pipe_body r st) = None"
  shows "block_start (pipe_body r st) = None"
    and "account (pipe_body r st) = account st - (if block_start st \<noteq> None then 1 else 0)"
    and "pipe_n (pipe_body r st) = pipe_n st + 1"
  using assms
  by (auto simp add: pipe_body_def pipe_unphased_def pipe_end_of_block_def pipe_raise_def
        account_def Let_def split: option.splits if_splits)

lemma account_warnings: "account (st\<lparr>warnings := w\<rparr>) = account st"
  by (simp add: account_def split: option.splits)

lemma pipe_foldl_ok_start:
  "pipe_raised (foldl pipe_step st rs) = None \<Longrightarrow> pipe_raised st = None"
  using pipe_foldl_raised [of st rs] by (cases "pipe_raised st = None") auto

lemma pipe_foldl_account:
  assumes "pipe_raised (foldl pipe_step st rs) = None"
  shows "account (foldl pipe_step st rs) + int (closing_unphased (block_start st \<noteq> None) rs)
           = account st
       \<and> pipe_n (foldl pipe_step st rs) = pipe_n st + int (length (filter considered rs))"
  using assms
proof (induction rs arbitrary: st)
  case Nil
  then show ?case by simp
next
  case (Cons r rs)
  let ?st = "pipe_step st r"
  from Cons.prems have fin: "pipe_raised (foldl pipe_step ?st rs) = None" by simp
  then have ok1: "pipe_raised ?st = None" by (rule pipe_foldl_ok_start)
  from Cons.prems have ok: "pipe_raised st = None" by (rule pipe_foldl_ok_start)
  note IH = Cons.IH [OF fin]
  from ok show ?case
  proof (cases rule: pipe_step_cases [where r = r])
    case skip
    then have "\<not> considered r" by (auto simp add: skipped_def considered_def split: list.splits)
    with skip IH show ?thesis by simp
  next
    case warn
    then have "\<not> considered r" by (auto simp add: skipped_def considered_def split: list.splits)
    with warn IH show ?thesis by (simp add: account_warnings)
  next
    case (faulty e)
    with ok1 show ?thesis by (simp add: pipe_raise_def)
  next
    case body
    show ?thesis
    proof (cases "first_call_phased r")
      case True
      from pipe_body_phased_account [OF True, of st] ok1 body IH True
      show ?thesis by simp
    next
      case False
      from pipe_body_unphased_account [OF False, of st] ok1 body IH False
      show ?thesis by (auto split: if_splits)
    qed
  qed
qed

lemma pipe_step_no_NameError:
  assumes "pipe_raised (pipe_step st r) = Some NameError"
  shows "pipe_raised st = Some NameError"
proof (cases "pipe_raised st = None")
  case False
  with assms show ?thesis by (simp add: pipe_step_raised)
next
  case True
  then show ?thesis
  proof (cases rule: pipe_step_cases [where r = r])
    case skip with assms show ?thesis by simp
  next
    case warn with assms show ?thesis by simp
  next
    case (faulty e) with assms show ?thesis by (auto simp add: pipe_raise_def)
  next
    case body
    with assms True show ?thesis
      by (auto simp add: pipe_body_def pipe_phased_def pipe_unphased_def pipe_end_of_block_def
            pipe_raise_def Let_def split: option.splits if_splits)
  qed
qed

lemma pipe_foldl_no_NameError:
  "pipe_raised (foldl pipe_step st rs) = Some NameError \<Longrightarrow> pipe_raised st = Some NameError"
  by (induction rs arbitrary: st) (auto dest: pipe_step_no_NameError)

lemma pipe_loop_no_NameError: "pipe_raised (pipe_loop rs) \<noteq> Some NameError"
  using pipe_foldl_no_NameError [of pipe_init rs] by (auto simp add: pipe_loop_def pipe_init_def)

lemma pipe_flush_no_NameError:
  "pipe_raised st = None \<Longrightarrow> pipe_raised (pipe_flush rs st) \<noteq> Some NameError"
  by (simp add: pipe_flush_def pipe_end_of_block_def pipe_raise_def Let_def split: option.splits)

lemma parse_pipe_notation_reaches_statistics:
  assumes "pipe_raised (parse_pipe_notation rs) = Some NameError"
  shows "pipe_raised (pipe_loop rs) = None"
    and "pipe_raised (pipe_flush rs (pipe_loop rs)) = None"
    and "parse_pipe_notation rs = pipe_statistics (pipe_flush rs (pipe_loop rs))"
proof -
  show 1: "pipe_raised (pipe_loop rs) = None"
    using assms pipe_loop_no_NameError [of rs]
    by (cases "pipe_raised (pipe_loop rs) = None") (simp_all add: parse_pipe_notation_def)
  show 2: "pipe_raised (pipe_flush rs (pipe_loop rs)) = None"
    using assms 1 pipe_flush_no_NameError [OF 1, of rs]
    by (cases "pipe_raised (pipe_flush rs (pipe_loop rs)) = None")
       (simp_all add: parse_pipe_notation_def Let_def)
  from 1 2 show "parse_pipe_notation rs = pipe_statistics (pipe_flush rs (pipe_loop rs))"
    by (simp add: parse_pipe_notation_def Let_def)
qed

lemma pipe_flush_account:
  assumes "pipe_raised st = None" and "pipe_raised (pipe_flush rs st) = None"
  shows "sum_list (map pb_n (stdout (pipe_flush rs st))) + singletons (pipe_flush rs st)
           - pipe_n (pipe_flush rs st) - int (length (stdout (pipe_flush rs st))) = account st"
    and "pipe_n (pipe_flush rs st) = pipe_n st"
  using assms
  by (auto simp add: pipe_flush_def pipe_end_of_block_def pipe_raise_def account_def Let_def
        split: option.splits if_splits)

text \<open>
  C6, as amended. In the adjacency mode, for every stream whose run reaches the statistics
  (it ends with their \<^verbatim>\<open>NameError\<close>, the loop and the flush having raised nothing),
  the variant counts of the printed blocks, plus the singletons, plus the unphased
  considered records that close a block, equal the number of considered records plus the
  number of printed blocks; and \<^verbatim>\<open>n\<close> is the number of considered records. The first
  variant of every block is the unphased record before it, which has been counted already
  as a singleton or as a closing record.
\<close>

theorem pipe_accounting:
  assumes "pipe_raised (parse_pipe_notation rs) = Some NameError"
  shows "sum_list (map pb_n (stdout (parse_pipe_notation rs)))
           + singletons (parse_pipe_notation rs) + int (closing_unphased False rs)
         = pipe_n (parse_pipe_notation rs) + int (length (stdout (parse_pipe_notation rs)))
       \<and> pipe_n (parse_pipe_notation rs) = int (length (filter considered rs))"
proof -
  note run = parse_pipe_notation_reaches_statistics [OF assms]
  let ?st = "pipe_loop rs"
  from run(1) have "pipe_raised (foldl pipe_step pipe_init rs) = None"
    by (simp add: pipe_loop_def)
  from pipe_foldl_account [OF this]
  have loop: "account ?st + int (closing_unphased False rs) = 0"
    "pipe_n ?st = int (length (filter considered rs))"
    by (simp_all add: pipe_loop_def pipe_init_def account_def)
  note flush = pipe_flush_account [OF run(1,2)]
  have stat: "stdout (parse_pipe_notation rs) = stdout (pipe_flush rs ?st)"
    "singletons (parse_pipe_notation rs) = singletons (pipe_flush rs ?st)"
    "pipe_n (parse_pipe_notation rs) = pipe_n (pipe_flush rs ?st)"
    by (simp_all add: run(3) pipe_statistics_def pipe_raise_def)
  from loop flush show ?thesis unfolding stat by simp
qed

theorem pipe_accounting_witness:
  "pipe_raised (parse_pipe_notation example_stream) = Some NameError
   \<and> sum_list (map pb_n (stdout (parse_pipe_notation example_stream))) = 5
   \<and> singletons (parse_pipe_notation example_stream) = 1
   \<and> closing_unphased False example_stream = 1
   \<and> pipe_n (parse_pipe_notation example_stream) = 5
   \<and> length (stdout (parse_pipe_notation example_stream)) = 2
   \<and> length (filter considered example_stream) = 5"
proof -
  have run: "pipe_raised (parse_pipe_notation example_stream) = Some NameError"
    by code_simp
  have vals: "sum_list (map pb_n (stdout (parse_pipe_notation example_stream))) = 5"
    "singletons (parse_pipe_notation example_stream) = 1"
    "length (stdout (parse_pipe_notation example_stream)) = 2"
    by code_simp+
  have c: "closing_unphased False example_stream = 1" by code_simp
  from pipe_accounting [OF run] run vals c show ?thesis by simp
qed

text \<open>
  C6 as the claim words it fails: of an unphased and a phased variant, the first is
  counted as a singleton and again as the first variant of the block that starts at its
  position; the three categories add up to 3 for 2 considered records.
\<close>

theorem pipe_accounting_counterexample:
  "pipe_raised (parse_pipe_notation unphased_then_phased) = Some NameError
   \<and> map pb_n (stdout (parse_pipe_notation unphased_then_phased)) = [2]
   \<and> map pb_start (stdout (parse_pipe_notation unphased_then_phased)) = [3]
   \<and> singletons (parse_pipe_notation unphased_then_phased) = 1
   \<and> closing_unphased False unphased_then_phased = 0
   \<and> pipe_n (parse_pipe_notation unphased_then_phased) = 2
   \<and> length (filter considered unphased_then_phased) = 2
   \<and> sum_list (map pb_n (stdout (parse_pipe_notation unphased_then_phased)))
       + singletons (parse_pipe_notation unphased_then_phased)
       + int (closing_unphased False unphased_then_phased)
       \<noteq> pipe_n (parse_pipe_notation unphased_then_phased)"
  by code_simp

section \<open>C5: the blocks that are written\<close>

lemma counter_get_incr:
  "counter_get (counter_incr k c) k' = counter_get c k' + (if k' = k then 1 else 0)"
  by (induction c) (auto simp add: counter_get_def)

lemma gtf_ok_counted:
  assumes "gtf_ok st"
  shows "gtf_ok (st\<lparr>n_records := n, blocks := counter_incr k (blocks st), n_phased := m\<rparr>)"
  using assms unfolding gtf_ok_def line_ok_def
  by (auto simp add: counter_get_incr)

lemma gtf_ok_n_records: "gtf_ok st \<Longrightarrow> gtf_ok (st\<lparr>n_records := n\<rparr>)"
  by (simp add: gtf_ok_def)

lemma gtf_ok_raise: "gtf_ok st \<Longrightarrow> gtf_ok (hp_raise e st)"
  by (simp add: gtf_ok_def hp_raise_def)

lemma hp_block_ended_ok:
  assumes "gtf_ok st" and "hp_block_ended gtf st = Inr file"
  shows "\<forall>l \<in> set file. line_ok (blocks st) l"
  using assms
  by (auto simp add: gtf_ok_def hp_block_ended_def GtfWriter_write_def line_ok_def
        split: option.splits if_splits)

lemma hp_transition_ok:
  assumes "gtf_ok st"
    and "\<And>name. bn = Some name \<Longrightarrow> 1 \<le> counter_get (blocks st) (CHROM r, name)"
  shows "gtf_ok (hp_transition gtf r bn st)"
proof (cases "hp_is_transition st bn r")
  case (Inl e)
  with assms(1) show ?thesis by (simp add: hp_transition_def gtf_ok_raise)
next
  case (Inr t)
  show ?thesis
  proof (cases t)
    case False
    with Inr assms show ?thesis by (simp add: hp_transition_def gtf_ok_def)
  next
    case True
    show ?thesis
    proof (cases "hp_block_ended gtf st")
      case (Inl e)
      with Inr True assms(1) show ?thesis by (simp add: hp_transition_def gtf_ok_raise)
    next
      case (Inr written)
      from hp_block_ended_ok [OF assms(1) Inr] assms \<open>hp_is_transition st bn r = Inr t\<close> True Inr
      show ?thesis by (simp add: hp_transition_def gtf_ok_def)
    qed
  qed
qed

lemma hp_step_ok:
  assumes "gtf_ok st"
  shows "gtf_ok (hp_step gtf st r)"
proof (cases "hp_raised st = None")
  case False
  with assms show ?thesis by (simp add: hp_step_raised)
next
  case True
  then show ?thesis
  proof (cases rule: hp_step_cases [where gtf = gtf and r = r])
    case (raised a)
    with assms show ?thesis by (simp add: gtf_ok_raise gtf_ok_n_records)
  next
    case (untagged c)
    from assms have "gtf_ok (st\<lparr>n_records := n_records st + 1\<rparr>)" by (rule gtf_ok_n_records)
    then have "gtf_ok (hp_transition gtf r None (st\<lparr>n_records := n_records st + 1\<rparr>))"
      by (rule hp_transition_ok) simp
    with untagged show ?thesis by simp
  next
    case (tagged c h0 h1)
    let ?st = "st\<lparr>n_records := n_records st + 1,
                   blocks := counter_incr (CHROM r, block_name_of h0) (blocks st),
                   n_phased := n_phased st + 1\<rparr>"
    have ok: "gtf_ok ?st" using assms by (rule gtf_ok_counted)
    from assms have "0 \<le> counter_get (blocks st) (CHROM r, block_name_of h0)"
      by (simp add: gtf_ok_def)
    then have "1 \<le> counter_get (blocks ?st) (CHROM r, block_name_of h0)"
      by (simp add: counter_get_incr)
    with ok have "gtf_ok (hp_transition gtf r (Some (block_name_of h0)) ?st)"
      by (intro hp_transition_ok) simp_all
    with tagged show ?thesis by simp
  qed
qed

lemma hp_foldl_ok: "gtf_ok st \<Longrightarrow> gtf_ok (foldl (hp_step gtf) st rs)"
  by (induction rs arbitrary: st) (simp_all add: hp_step_ok)

lemma parse_hp_tags_ok_lines: "gtf_ok (parse_hp_tags gtf rs)"
proof -
  have "gtf_ok hp_init" by (simp add: gtf_ok_def hp_init_def counter_get_def)
  then have "gtf_ok (hp_loop gtf rs)" unfolding hp_loop_def by (rule hp_foldl_ok)
  then show ?thesis by (simp add: parse_hp_tags_def gtf_ok_def Let_def)
qed

lemma pipe_end_of_block_ok: "pipe_ok st \<Longrightarrow> pipe_ok (pipe_end_of_block chrom b st)"
  by (auto simp add: pipe_ok_def pipe_end_of_block_def pipe_raise_def Let_def
        split: option.splits)

lemma pipe_body_ok: "pipe_ok st \<Longrightarrow> pipe_ok (pipe_body r st)"
  using pipe_end_of_block_ok [of st]
  by (auto simp add: pipe_ok_def pipe_body_def pipe_phased_def pipe_unphased_def
        pipe_raise_def Let_def split: option.splits)

lemma pipe_step_ok:
  assumes "pipe_ok st"
  shows "pipe_ok (pipe_step st r)"
proof (cases "pipe_raised st = None")
  case False
  with assms show ?thesis by (simp add: pipe_step_raised)
next
  case True
  then show ?thesis
  proof (cases rule: pipe_step_cases [where r = r])
    case skip with assms show ?thesis by simp
  next
    case warn with assms show ?thesis by (simp add: pipe_ok_def)
  next
    case (faulty e) with assms show ?thesis by (simp add: pipe_ok_def pipe_raise_def)
  next
    case body with assms show ?thesis by (simp add: pipe_body_ok)
  qed
qed

lemma pipe_foldl_ok: "pipe_ok st \<Longrightarrow> pipe_ok (foldl pipe_step st rs)"
  by (induction rs arbitrary: st) (simp_all add: pipe_step_ok)

lemma pipe_flush_ok: "pipe_ok st \<Longrightarrow> pipe_ok (pipe_flush rs st)"
  using pipe_end_of_block_ok [of st]
  by (auto simp add: pipe_flush_def pipe_raise_def pipe_ok_def split: option.splits)

lemma parse_pipe_notation_ok: "pipe_ok (parse_pipe_notation rs)"
proof -
  have "pipe_ok pipe_init" by (simp add: pipe_ok_def pipe_init_def)
  then have loop: "pipe_ok (pipe_loop rs)" unfolding pipe_loop_def by (rule pipe_foldl_ok)
  then have "pipe_ok (pipe_flush rs (pipe_loop rs))" by (rule pipe_flush_ok)
  with loop show ?thesis
    by (simp add: parse_pipe_notation_def Let_def pipe_statistics_def pipe_raise_def pipe_ok_def)
qed

text \<open>
  C5, as amended. For all inputs, every block that the tag-based mode writes to the GTF
  file has start < end (the start is the printed start less one) and belongs to a phase
  group of at least one variant, and every block that the adjacency mode prints has
  start < end and a variant count of at least 2: there singletons are only counted. In
  the tag-based mode a phase group of a single variant is written as a block.
\<close>

theorem emitted_blocks_invariant:
  "(\<forall>l \<in> set (gtf_file (parse_hp_tags gtf rs)).
      feature_start l - 1 < feature_end l
      \<and> 1 \<le> counter_get (blocks (parse_hp_tags gtf rs)) (seqname l, gene_id l))
   \<and> (\<forall>b \<in> set (stdout (parse_pipe_notation rs')). pb_start b < pb_end b \<and> 2 \<le> pb_n b)"
  using parse_hp_tags_ok_lines [of gtf rs] parse_pipe_notation_ok [of rs']
  by (simp add: gtf_ok_def line_ok_def pipe_ok_def)

theorem emitted_blocks_invariant_witness:
  "\<lparr>seqname = ''chr1'', feature_start = 1, feature_end = 3, gene_id = ''7'',
     transcript_id = ''7.1''\<rparr> \<in> set (gtf_file (parse_hp_tags True stream_3_3_5))
   \<and> 1 \<le> counter_get (blocks (parse_hp_tags True stream_3_3_5)) (''chr1'', ''7'')
   \<and> \<lparr>pb_chrom = ''chr1'', pb_start = 3, pb_end = 6, pb_len = 3, pb_n = 2\<rparr>
       \<in> set (stdout (parse_pipe_notation example_stream))"
proof -
  have written: "gtf_file (parse_hp_tags True stream_3_3_5) =
      [\<lparr>seqname = ''chr1'', feature_start = 1, feature_end = 3, gene_id = ''7'',
         transcript_id = ''7.1''\<rparr>,
       \<lparr>seqname = ''chr1'', feature_start = 4, feature_end = 6, gene_id = ''8'',
         transcript_id = ''8.1''\<rparr>]"
    by code_simp
  have out: "stdout (parse_pipe_notation example_stream) =
      [\<lparr>pb_chrom = ''chr1'', pb_start = 3, pb_end = 6, pb_len = 3, pb_n = 2\<rparr>,
       \<lparr>pb_chrom = ''chr1'', pb_start = 7, pb_end = 12, pb_len = 5, pb_n = 3\<rparr>]"
    by code_simp
  from emitted_blocks_invariant [of True stream_3_3_5 example_stream]
  show ?thesis unfolding written out by simp
qed

text \<open>
  C5 as the claim words it fails: of two phase groups of one variant each, the
  tag-based mode writes the first as a block, of variant count 1.
\<close>

theorem single_variant_block_counterexample:
  "gtf_file (parse_hp_tags True two_groups) =
     [\<lparr>seqname = ''chr1'', feature_start = 6, feature_end = 6, gene_id = ''41'',
        transcript_id = ''41.1''\<rparr>]
   \<and> hp_raised (parse_hp_tags True two_groups) = None
   \<and> counter_get (blocks (parse_hp_tags True two_groups)) (''chr1'', ''41'') = 1
   \<and> \<not> 2 \<le> counter_get (blocks (parse_hp_tags True two_groups)) (''chr1'', ''41'')"
  by code_simp

end
